theory Spec2Isabelle
  imports Main "HOL-Library.Sublist" "HOL-Library.Product_Lexorder"
begin

section \<open>Python strings\<close>

text \<open>
  A Python \<open>str\<close> is a sequence of Unicode code points.  A code point is modelled as a
  natural number, so that every text the program can read is covered (an Isabelle
  \<open>char\<close> would only cover the code points below 256).  \<open>str\<close> turns an ASCII literal
  into such a text.
\<close>

type_synonym str = "nat list"

definition str :: "string \<Rightarrow> str" where
  "str s = map of_char s"

definition dquote :: nat where
  "dquote = 34"

text \<open>\<open>sub in s\<close> on two strings: \<open>sub\<close> occurs in \<open>s\<close> as a contiguous run.\<close>

fun str_in :: "str \<Rightarrow> str \<Rightarrow> bool" where
  "str_in sub [] = (sub = [])"
| "str_in sub (c # cs) = (prefix sub (c # cs) \<or> str_in sub cs)"

text \<open>Decimal digits of a non-negative integer, as \<open>str(n)\<close> and the f-string print it.\<close>

fun digits :: "nat \<Rightarrow> str" where
  "digits n = (if n < 10 then [48 + n] else digits (n div 10) @ [48 + n mod 10])"

declare digits.simps [simp del]

subsection \<open>\<open>str.splitlines(keepends=True)\<close>\<close>

text \<open>
  The line boundaries of \<open>str.splitlines\<close>: LF, VT, FF, CR, FS, GS, RS, NEL, LS and PS;
  the pair CR LF is one boundary.  With \<open>keepends=True\<close> every line keeps its boundary,
  so the lines concatenate to the text again; a trailing piece without a boundary is a
  line as well, and the empty text has no line.
\<close>

definition is_linebreak :: "nat \<Rightarrow> bool" where
  "is_linebreak c \<longleftrightarrow> c \<in> {10, 11, 12, 13, 28, 29, 30, 133, 8232, 8233}"

fun splitlines_from :: "str \<Rightarrow> str \<Rightarrow> str list" where
  "splitlines_from cur [] = (if cur = [] then [] else [cur])"
| "splitlines_from cur [c] = [cur @ [c]]"
| "splitlines_from cur (c # d # cs) =
     (if c = 13 \<and> d = 10 then (cur @ [c, d]) # splitlines_from [] cs
      else if is_linebreak c then (cur @ [c]) # splitlines_from [] (d # cs)
      else splitlines_from (cur @ [c]) (d # cs))"

definition splitlines :: "str \<Rightarrow> str list" where
  "splitlines s = splitlines_from [] s"

section \<open>The link extractor\<close>

text \<open>
  \<open>re.findall(r'href="(https?://[^"]+)"', html_content)\<close>.

  \<open>match_here s\<close> is the regular expression matched at the start of \<open>s\<close>: the literal
  \<open>href="http\<close>, an optional \<open>s\<close>, the literal \<open>://\<close>, the longest non-empty run of
  characters other than the double quote (line breaks included), and a closing double
  quote.  Backtracking finds nothing else: a shorter run is followed by a character that
  is not a double quote, and \<open>s\<close> cannot stand for the colon.  The result is the group
  (the URL) and the text after the match.
\<close>

definition href_http :: str where
  "href_http = str ''href='' @ [dquote] @ str ''http''"

definition match_here :: "str \<Rightarrow> (str \<times> str) option" where
  "match_here s =
     (if prefix href_http s then
        (let r = drop (length href_http) s;
             sch = (if prefix (str ''s://'') r then Some (str ''https://'', drop 4 r)
                    else if prefix (str ''://'') r then Some (str ''http://'', drop 3 r)
                    else None)
         in case sch of
              None \<Rightarrow> None
            | Some (scheme, rest) \<Rightarrow>
                (let body = takeWhile (\<lambda>c. c \<noteq> dquote) rest;
                     after = dropWhile (\<lambda>c. c \<noteq> dquote) rest
                 in if body \<noteq> [] \<and> after \<noteq> [] then Some (scheme @ body, tl after)
                    else None))
      else None)"

lemma match_here_shorter:
  assumes "match_here s = Some (url, rest)"
  shows "length rest < length s"
proof -
  have dw: "length (dropWhile P xs) \<le> length xs" for P and xs :: str
    by (induction xs) auto
  have tl_lt: "xs \<noteq> [] \<Longrightarrow> length (tl xs) < length xs" for xs :: str
    by (cases xs) auto
  from assms obtain r0 where r0: "dropWhile (\<lambda>c. c \<noteq> dquote) r0 \<noteq> []"
      "rest = tl (dropWhile (\<lambda>c. c \<noteq> dquote) r0)"
      "length r0 \<le> length s"
    by (auto simp: match_here_def Let_def split: if_splits option.splits)
  from tl_lt[OF r0(1)] dw[of "\<lambda>c. c \<noteq> dquote" r0] r0(2,3) show ?thesis
    by simp
qed

text \<open>
  \<open>findall\<close> scans from left to right: a match contributes its group and the scan goes
  on after the match (matches do not overlap); where there is no match the scan moves
  one character on.
\<close>

function findall_href :: "str \<Rightarrow> str list" where
  "findall_href [] = []"
| "findall_href (c # cs) =
     (case match_here (c # cs) of
        Some (url, rest) \<Rightarrow> url # findall_href rest
      | None \<Rightarrow> findall_href cs)"
  by pat_completeness auto
termination
  by (relation "measure length") (auto dest: match_here_shorter)

definition extract_links :: "str \<Rightarrow> str list" where
  "extract_links html_content = findall_href html_content"

section \<open>\<open>difflib.unified_diff\<close>\<close>

text \<open>
  The program calls \<open>difflib.unified_diff(a, b)\<close> of the Python standard library with its
  defaults: no file names or dates, three lines of context, line terminator LF.  The
  model follows the library's \<open>SequenceMatcher(None, a, b)\<close> (no junk predicate, the
  automatic junk heuristic on) step by step.
\<close>

subsection \<open>\<open>SequenceMatcher.__chain_b\<close>\<close>

text \<open>
  \<open>b2j\<close> maps an element of \<open>b\<close> to the ascending list of the indices where it occurs.
  When \<open>b\<close> has 200 elements or more, an element that occurs more than
  \<open>len(b) // 100 + 1\<close> times is popular and loses its entry.  \<open>b2j.get(elt, [])\<close> is the
  empty list for an element without an entry.
\<close>

definition b2j :: "'a list \<Rightarrow> 'a \<Rightarrow> nat list" where
  "b2j b elt =
     (let idxs = filter (\<lambda>j. b ! j = elt) [0..<length b];
          n = length b
      in if n \<ge> 200 \<and> length idxs > n div 100 + 1 then [] else idxs)"

text \<open>No junk predicate is given, so the set \<open>bjunk\<close> is empty.\<close>

definition isbjunk :: "'a \<Rightarrow> bool" where
  "isbjunk x = False"

subsection \<open>\<open>SequenceMatcher.find_longest_match\<close>\<close>

text \<open>
  The inner loop \<open>for j in b2j.get(a[i], nothing)\<close> of row \<open>i\<close>: \<open>continue\<close> below \<open>blo\<close>,
  \<open>break\<close> from \<open>bhi\<close> on, otherwise \<open>k = newj2len[j] = j2len.get(j-1, 0) + 1\<close> and the
  best match is replaced when \<open>k\<close> is strictly larger.  The key \<open>j-1\<close> of \<open>j = 0\<close> is
  \<open>-1\<close>, which no dictionary holds.  The state is \<open>(newj2len, besti, bestj, bestsize)\<close>.
\<close>

type_synonym best = "nat \<times> nat \<times> nat"

fun flm_row :: "nat \<Rightarrow> nat \<Rightarrow> nat \<Rightarrow> (nat \<rightharpoonup> nat) \<Rightarrow> nat list \<Rightarrow>
    (nat \<rightharpoonup> nat) \<times> best \<Rightarrow> (nat \<rightharpoonup> nat) \<times> best" where
  "flm_row i blo bhi j2len [] st = st"
| "flm_row i blo bhi j2len (j # js) (newj2len, besti, bestj, bestsize) =
     (if j < blo then flm_row i blo bhi j2len js (newj2len, besti, bestj, bestsize)
      else if j \<ge> bhi then (newj2len, besti, bestj, bestsize)
      else
        (let k = (if j = 0 then 0 else case j2len (j - 1) of None \<Rightarrow> 0 | Some v \<Rightarrow> v) + 1
         in if k > bestsize
            then flm_row i blo bhi j2len js (newj2len(j \<mapsto> k), i + 1 - k, j + 1 - k, k)
            else flm_row i blo bhi j2len js (newj2len(j \<mapsto> k), besti, bestj, bestsize)))"

text \<open>The outer loop \<open>for i in range(alo, ahi)\<close>, over the list of its rows.\<close>

fun flm_rows :: "'a list \<Rightarrow> ('a \<Rightarrow> nat list) \<Rightarrow> nat \<Rightarrow> nat \<Rightarrow> nat list \<Rightarrow>
    (nat \<rightharpoonup> nat) \<Rightarrow> best \<Rightarrow> best" where
  "flm_rows a bj blo bhi [] j2len bst = bst"
| "flm_rows a bj blo bhi (i # rows) j2len bst =
     (case flm_row i blo bhi j2len (bj (a ! i)) (Map.empty, bst) of
        (newj2len, bst') \<Rightarrow> flm_rows a bj blo bhi rows newj2len bst')"

text \<open>
  The four \<open>while\<close> loops that extend the best match: to the left and to the right, first
  over elements that are not junk, then over junk elements (\<open>junk\<close> says which).
\<close>

function extend_left :: "'a list \<Rightarrow> 'a list \<Rightarrow> nat \<Rightarrow> nat \<Rightarrow> bool \<Rightarrow> best \<Rightarrow> best" where
  "extend_left a b alo blo junk (besti, bestj, bestsize) =
     (if besti > alo \<and> bestj > blo \<and> isbjunk (b ! (bestj - 1)) = junk
         \<and> a ! (besti - 1) = b ! (bestj - 1)
      then extend_left a b alo blo junk (besti - 1, bestj - 1, bestsize + 1)
      else (besti, bestj, bestsize))"
  by pat_completeness auto
termination
  by (relation "measure (\<lambda>(a, b, alo, blo, junk, besti, bestj, bestsize). besti)") auto

function extend_right :: "'a list \<Rightarrow> 'a list \<Rightarrow> nat \<Rightarrow> nat \<Rightarrow> bool \<Rightarrow> best \<Rightarrow> best" where
  "extend_right a b ahi bhi junk (besti, bestj, bestsize) =
     (if besti + bestsize < ahi \<and> bestj + bestsize < bhi
         \<and> isbjunk (b ! (bestj + bestsize)) = junk
         \<and> a ! (besti + bestsize) = b ! (bestj + bestsize)
      then extend_right a b ahi bhi junk (besti, bestj, bestsize + 1)
      else (besti, bestj, bestsize))"
  by pat_completeness auto
termination
  by (relation "measure (\<lambda>(a, b, ahi, bhi, junk, besti, bestj, bestsize). ahi - (besti + bestsize))")
    auto

declare extend_left.simps [simp del] extend_right.simps [simp del]

definition find_longest_match ::
    "'a list \<Rightarrow> 'a list \<Rightarrow> ('a \<Rightarrow> nat list) \<Rightarrow> nat \<Rightarrow> nat \<Rightarrow> nat \<Rightarrow> nat \<Rightarrow> best" where
  "find_longest_match a b bj alo ahi blo bhi =
     extend_right a b ahi bhi True
       (extend_left a b alo blo True
         (extend_right a b ahi bhi False
           (extend_left a b alo blo False
             (flm_rows a bj blo bhi [alo..<ahi] Map.empty (alo, blo, 0)))))"

text \<open>
  The match that \<open>find_longest_match\<close> returns lies inside the rows it was asked for;
  the loop of \<open>get_matching_blocks\<close> terminates because of it.
\<close>

lemma flm_row_bounds:
  assumes "flm_row i blo bhi j2len js (nj, bi, bj, bs) = (nj', bi', bj', bs')"
    and "\<forall>j v. j2len j = Some v \<longrightarrow> v + alo \<le> i"
    and "\<forall>j v. nj j = Some v \<longrightarrow> v + alo \<le> i + 1"
    and "alo \<le> bi" and "bi + bs \<le> i + 1" and "alo \<le> i"
  shows "(\<forall>j v. nj' j = Some v \<longrightarrow> v + alo \<le> i + 1) \<and> alo \<le> bi' \<and> bi' + bs' \<le> i + 1"
  using assms
proof (induction js arbitrary: nj bi bj bs)
  case Nil
  then show ?case by simp
next
  case (Cons j js)
  define k where "k = (if j = 0 then 0 else case j2len (j - 1) of None \<Rightarrow> 0 | Some v \<Rightarrow> v) + 1"
  have k: "k + alo \<le> i + 1" "1 \<le> k"
    using Cons.prems(2,6) by (auto simp: k_def split: option.splits)
  show ?case
  proof (cases "j < blo")
    case True
    with Cons show ?thesis by simp
  next
    case nlo: False
    show ?thesis
    proof (cases "j \<ge> bhi")
      case True
      with nlo Cons.prems show ?thesis by simp
    next
      case False
      show ?thesis
      proof (cases "k > bs")
        case True
        with nlo False Cons.prems(1)
        have "flm_row i blo bhi j2len js (nj(j \<mapsto> k), i + 1 - k, j + 1 - k, k) = (nj', bi', bj', bs')"
          by (simp add: k_def)
        moreover have "\<forall>j' v. (nj(j \<mapsto> k)) j' = Some v \<longrightarrow> v + alo \<le> i + 1"
          using Cons.prems(3) k by auto
        ultimately show ?thesis
          by (rule Cons.IH[OF _ Cons.prems(2)]) (use k Cons.prems(6) in auto)
      next
        case nb: False
        with nlo False Cons.prems(1)
        have "flm_row i blo bhi j2len js (nj(j \<mapsto> k), bi, bj, bs) = (nj', bi', bj', bs')"
          by (simp add: k_def)
        moreover have "\<forall>j' v. (nj(j \<mapsto> k)) j' = Some v \<longrightarrow> v + alo \<le> i + 1"
          using Cons.prems(3) k by auto
        ultimately show ?thesis
          by (rule Cons.IH[OF _ Cons.prems(2)]) (use Cons.prems(4,5,6) in auto)
      qed
    qed
  qed
qed

lemma flm_rows_bounds:
  assumes "flm_rows a bjm blo bhi rows j2len (bi, bj, bs) = (bi', bj', bs')"
    and "sorted_wrt (<) rows" and "\<forall>i\<in>set rows. t \<le> i \<and> i < ahi"
    and "\<forall>j v. j2len j = Some v \<longrightarrow> v + alo \<le> t"
    and "alo \<le> bi" and "bi + bs \<le> t" and "t \<le> ahi" and "alo \<le> t"
  shows "alo \<le> bi' \<and> bi' + bs' \<le> ahi"
  using assms
proof (induction rows arbitrary: t j2len bi bj bs)
  case Nil
  then show ?case by simp
next
  case (Cons i rows)
  obtain nj bi1 bj1 bs1 where row:
    "flm_row i blo bhi j2len (bjm (a ! i)) (Map.empty, bi, bj, bs) = (nj, bi1, bj1, bs1)"
    by (metis prod_cases4)
  from Cons.prems(3) have ti: "t \<le> i" "i < ahi" by auto
  have "(\<forall>j v. nj j = Some v \<longrightarrow> v + alo \<le> i + 1) \<and> alo \<le> bi1 \<and> bi1 + bs1 \<le> i + 1"
  proof (rule flm_row_bounds[OF row])
    show "\<forall>j v. j2len j = Some v \<longrightarrow> v + alo \<le> i"
      using Cons.prems(4) ti by (meson le_trans)
  qed (use Cons.prems(5,6,8) ti in auto)
  moreover from Cons.prems(1) row
  have "flm_rows a bjm blo bhi rows nj (bi1, bj1, bs1) = (bi', bj', bs')" by simp
  moreover have "\<forall>i'\<in>set rows. i + 1 \<le> i' \<and> i' < ahi"
    using Cons.prems(2,3) by auto
  ultimately show ?case
    using Cons.prems(2,8) ti by (intro Cons.IH[of nj bi1 bj1 bs1 "i + 1"]) auto
qed

lemma extend_left_bounds:
  assumes "extend_left a b alo blo junk (bi, bj, bs) = (bi', bj', bs')" and "alo \<le> bi"
  shows "alo \<le> bi' \<and> bi' + bs' = bi + bs"
  using assms
proof (induction a b alo blo junk "(bi, bj, bs)" arbitrary: bi bj bs rule: extend_left.induct)
  case (1 a b alo blo junk besti bestj bestsize)
  show ?case
  proof (cases "besti > alo \<and> bestj > blo \<and> isbjunk (b ! (bestj - 1)) = junk
         \<and> a ! (besti - 1) = b ! (bestj - 1)")
    case True
    with 1(2) have "extend_left a b alo blo junk (besti - 1, bestj - 1, bestsize + 1) = (bi', bj', bs')"
      by (subst (asm) extend_left.simps) simp
    from 1(1)[OF True this] True show ?thesis by auto
  next
    case False
    with 1(2,3) show ?thesis by (subst (asm) extend_left.simps) auto
  qed
qed

lemma extend_right_bounds:
  assumes "extend_right a b ahi bhi junk (bi, bj, bs) = (bi', bj', bs')" and "bi + bs \<le> ahi"
  shows "bi' = bi \<and> bi' + bs' \<le> ahi \<and> bs \<le> bs'"
  using assms
proof (induction a b ahi bhi junk "(bi, bj, bs)" arbitrary: bi bj bs rule: extend_right.induct)
  case (1 a b ahi bhi junk besti bestj bestsize)
  show ?case
  proof (cases "besti + bestsize < ahi \<and> bestj + bestsize < bhi
         \<and> isbjunk (b ! (bestj + bestsize)) = junk
         \<and> a ! (besti + bestsize) = b ! (bestj + bestsize)")
    case True
    with 1(2) have "extend_right a b ahi bhi junk (besti, bestj, bestsize + 1) = (bi', bj', bs')"
      by (subst (asm) extend_right.simps) simp
    from 1(1)[OF True this] True show ?thesis by auto
  next
    case False
    with 1(2,3) show ?thesis by (subst (asm) extend_right.simps) auto
  qed
qed

lemma find_longest_match_bounds:
  assumes "find_longest_match a b bjm alo ahi blo bhi = (i, j, k)" and "k \<noteq> 0"
  shows "alo \<le> i \<and> i + k \<le> ahi"
proof (cases "alo \<le> ahi")
  case True
  obtain i0 j0 k0 where r0: "flm_rows a bjm blo bhi [alo..<ahi] Map.empty (alo, blo, 0) = (i0, j0, k0)"
    by (metis prod_cases3)
  obtain i1 j1 k1 where r1: "extend_left a b alo blo False (i0, j0, k0) = (i1, j1, k1)"
    by (metis prod_cases3)
  obtain i2 j2 k2 where r2: "extend_right a b ahi bhi False (i1, j1, k1) = (i2, j2, k2)"
    by (metis prod_cases3)
  obtain i3 j3 k3 where r3: "extend_left a b alo blo True (i2, j2, k2) = (i3, j3, k3)"
    by (metis prod_cases3)
  from assms(1) r0 r1 r2 r3 have r4: "extend_right a b ahi bhi True (i3, j3, k3) = (i, j, k)"
    by (simp add: find_longest_match_def)
  have b0: "alo \<le> i0 \<and> i0 + k0 \<le> ahi"
    using True by (intro flm_rows_bounds[OF r0, of alo]) auto
  with extend_left_bounds[OF r1] have b1: "alo \<le> i1 \<and> i1 + k1 \<le> ahi" by auto
  with extend_right_bounds[OF r2] have b2: "alo \<le> i2 \<and> i2 + k2 \<le> ahi" by auto
  with extend_left_bounds[OF r3] have b3: "alo \<le> i3 \<and> i3 + k3 \<le> ahi" by auto
  with extend_right_bounds[OF r4] show ?thesis by auto
next
  case False
  then have "find_longest_match a b bjm alo ahi blo bhi = (alo, blo, 0)"
    by (simp add: find_longest_match_def extend_left.simps extend_right.simps)
  with assms show ?thesis by simp
qed

subsection \<open>\<open>SequenceMatcher.get_matching_blocks\<close>\<close>

text \<open>
  The work list \<open>queue\<close> is a Python list used as a stack: \<open>queue.pop()\<close> takes its last
  element and \<open>queue.append\<close> adds at the end.  A match of size 0 adds no block.
\<close>

function mb_loop :: "'a list \<Rightarrow> 'a list \<Rightarrow> ('a \<Rightarrow> nat list) \<Rightarrow>
    (nat \<times> nat \<times> nat \<times> nat) list \<Rightarrow> best list \<Rightarrow> best list" where
  "mb_loop a b bjm queue blocks =
     (if queue = [] then blocks
      else
        (case last queue of (alo, ahi, blo, bhi) \<Rightarrow>
          (case find_longest_match a b bjm alo ahi blo bhi of (i, j, k) \<Rightarrow>
            if k \<noteq> 0
            then mb_loop a b bjm
                   (butlast queue
                      @ (if alo < i \<and> blo < j then [(alo, i, blo, j)] else [])
                      @ (if i + k < ahi \<and> j + k < bhi then [(i + k, ahi, j + k, bhi)] else []))
                   (blocks @ [(i, j, k)])
            else mb_loop a b bjm (butlast queue) blocks)))"
  by pat_completeness auto
termination
proof (relation "measure (\<lambda>(a, b, bjm, queue, blocks).
    sum_list (map (\<lambda>(alo, ahi, blo, bhi). 2 * (ahi - alo) + 1) queue))", goal_cases)
  case 1
  show ?case by simp
next
  case (2 a b bjm queue blocks alo y ahi ya blo bhi i yc j k)
  then have q: "queue = butlast queue @ [(alo, ahi, blo, bhi)]"
    by (metis append_butlast_last_id)
  have s: "sum_list (map (\<lambda>(alo, ahi, blo, bhi). 2 * (ahi - alo) + 1) queue)
      = sum_list (map (\<lambda>(alo, ahi, blo, bhi). 2 * (ahi - alo) + 1) (butlast queue))
        + (2 * (ahi - alo) + 1)"
    by (subst q) (simp del: append_butlast_last_id)
  from 2 have "find_longest_match a b bjm alo ahi blo bhi = (i, j, k)" by simp
  from find_longest_match_bounds[OF this] 2 have "alo \<le> i \<and> i + k \<le> ahi" by simp
  with \<open>k \<noteq> 0\<close> show ?case
    unfolding in_measure prod.case s by auto
next
  case (3 a b bjm queue blocks alo y ahi ya blo bhi i yc j k)
  then have q: "queue = butlast queue @ [(alo, ahi, blo, bhi)]"
    by (metis append_butlast_last_id)
  have s: "sum_list (map (\<lambda>(alo, ahi, blo, bhi). 2 * (ahi - alo) + 1) queue)
      = sum_list (map (\<lambda>(alo, ahi, blo, bhi). 2 * (ahi - alo) + 1) (butlast queue))
        + (2 * (ahi - alo) + 1)"
    by (subst q) (simp del: append_butlast_last_id)
  show ?case
    unfolding in_measure prod.case s by auto
qed


declare mb_loop.simps [simp del]

text \<open>
  Adjacent blocks are merged after the sort: \<open>(i1, j1, k1)\<close> is the block being grown,
  \<open>non_adjacent\<close> the blocks done.
\<close>

fun collapse :: "best \<Rightarrow> best list \<Rightarrow> best list \<Rightarrow> best list" where
  "collapse (i1, j1, k1) non_adjacent [] =
     (if k1 \<noteq> 0 then non_adjacent @ [(i1, j1, k1)] else non_adjacent)"
| "collapse (i1, j1, k1) non_adjacent ((i2, j2, k2) # blocks) =
     (if i1 + k1 = i2 \<and> j1 + k1 = j2 then collapse (i1, j1, k1 + k2) non_adjacent blocks
      else collapse (i2, j2, k2)
             (if k1 \<noteq> 0 then non_adjacent @ [(i1, j1, k1)] else non_adjacent) blocks)"

definition get_matching_blocks :: "'a list \<Rightarrow> 'a list \<Rightarrow> best list" where
  "get_matching_blocks a b =
     (let la = length a; lb = length b;
          matching_blocks = sort (mb_loop a b (b2j b) [(0, la, 0, lb)] [])
      in collapse (0, 0, 0) [] matching_blocks @ [(la, lb, 0)])"

subsection \<open>\<open>SequenceMatcher.get_opcodes\<close> and \<open>get_grouped_opcodes\<close>\<close>

datatype tag = Replace | Delete | Insert | Equal

type_synonym opcode = "tag \<times> nat \<times> nat \<times> nat \<times> nat"

fun opcodes_from :: "nat \<Rightarrow> nat \<Rightarrow> best list \<Rightarrow> opcode list" where
  "opcodes_from i j [] = []"
| "opcodes_from i j ((ai, bj, sz) # blocks) =
     (if i < ai \<and> j < bj then [(Replace, i, ai, j, bj)]
      else if i < ai then [(Delete, i, ai, j, bj)]
      else if j < bj then [(Insert, i, ai, j, bj)]
      else [])
     @ (if sz \<noteq> 0 then [(Equal, ai, ai + sz, bj, bj + sz)] else [])
     @ opcodes_from (ai + sz) (bj + sz) blocks"

definition get_opcodes :: "'a list \<Rightarrow> 'a list \<Rightarrow> opcode list" where
  "get_opcodes a b = opcodes_from 0 0 (get_matching_blocks a b)"

text \<open>
  The leading and the trailing opcode are cut to \<open>n\<close> lines of context when they are
  \<open>equal\<close>.  \<open>max(i1, i2-n)\<close> is written with the truncating subtraction of the naturals:
  where \<open>i2-n\<close> is negative in Python the maximum is \<open>i1\<close> in both.
\<close>

definition fix_leading :: "nat \<Rightarrow> opcode list \<Rightarrow> opcode list" where
  "fix_leading n codes =
     (case codes of
        (Equal, i1, i2, j1, j2) # rest \<Rightarrow> (Equal, max i1 (i2 - n), i2, max j1 (j2 - n), j2) # rest
      | _ \<Rightarrow> codes)"

definition fix_trailing :: "nat \<Rightarrow> opcode list \<Rightarrow> opcode list" where
  "fix_trailing n codes =
     (if codes = [] then codes
      else case last codes of
        (Equal, i1, i2, j1, j2) \<Rightarrow>
           butlast codes @ [(Equal, i1, min i2 (i1 + n), j1, min j2 (j1 + n))]
      | _ \<Rightarrow> codes)"

text \<open>The grouping loop; \<open>grp\<close> is the grp being filled, the result the groups yielded.\<close>

fun group_loop :: "nat \<Rightarrow> opcode list \<Rightarrow> opcode list \<Rightarrow> opcode list list" where
  "group_loop n [] grp =
     (if grp \<noteq> [] \<and> \<not> (length grp = 1 \<and> fst (hd grp) = Equal) then [grp] else [])"
| "group_loop n ((tg, i1, i2, j1, j2) # codes) grp =
     (if tg = Equal \<and> i2 - i1 > n + n
      then (grp @ [(tg, i1, min i2 (i1 + n), j1, min j2 (j1 + n))])
             # group_loop n codes [(tg, max i1 (i2 - n), i2, max j1 (j2 - n), j2)]
      else group_loop n codes (grp @ [(tg, i1, i2, j1, j2)]))"

definition get_grouped_opcodes :: "'a list \<Rightarrow> 'a list \<Rightarrow> nat \<Rightarrow> opcode list list" where
  "get_grouped_opcodes a b n =
     (let codes = get_opcodes a b;
          codes = (if codes = [] then [(Equal, 0, 1, 0, 1)] else codes)
      in group_loop n (fix_trailing n (fix_leading n codes)) [])"

subsection \<open>\<open>unified_diff\<close>\<close>

text \<open>\<open>_format_range_unified(start, stop)\<close>.\<close>

definition format_range_unified :: "nat \<Rightarrow> nat \<Rightarrow> str" where
  "format_range_unified start stop =
     (let beginning = start + 1; len = stop - start
      in if len = 1 then digits beginning
         else digits (if len = 0 then beginning - 1 else beginning) @ str '','' @ digits len)"

text \<open>
  The lines of one opcode: \<open>a[i1:i2]\<close> with a blank for \<open>equal\<close>, with a minus for
  \<open>replace\<close> and \<open>delete\<close>; \<open>b[j1:j2]\<close> with a plus for \<open>replace\<close> and \<open>insert\<close>.
\<close>

definition slice :: "'a list \<Rightarrow> nat \<Rightarrow> nat \<Rightarrow> 'a list" where
  "slice xs i1 i2 = take (i2 - i1) (drop i1 xs)"

fun opcode_lines :: "str list \<Rightarrow> str list \<Rightarrow> opcode \<Rightarrow> str list" where
  "opcode_lines a b (tg, i1, i2, j1, j2) =
     (if tg = Equal then map (\<lambda>line. str '' '' @ line) (slice a i1 i2)
      else
        (if tg = Replace \<or> tg = Delete then map (\<lambda>line. str ''-'' @ line) (slice a i1 i2)
         else [])
        @ (if tg = Replace \<or> tg = Insert then map (\<lambda>line. str ''+'' @ line) (slice b j1 j2)
           else []))"

definition hunk_lines :: "str list \<Rightarrow> str list \<Rightarrow> opcode list \<Rightarrow> str list" where
  "hunk_lines a b grp =
     (case (hd grp, last grp) of
        ((t1, f1, f2, f3, f4), (t2, l1, l2, l3, l4)) \<Rightarrow>
          (str ''@@ -'' @ format_range_unified f1 l2 @ str '' +'' @ format_range_unified f3 l4
             @ str '' @@'' @ [10])
          # concat (map (opcode_lines a b) grp))"

text \<open>
  The two header lines come before the first grp only; there is no output without a
  grp.  File names and dates are empty, so the headers are \<open>---\<close> and \<open>+++\<close>, each with
  a blank and the line terminator.
\<close>

definition unified_diff :: "str list \<Rightarrow> str list \<Rightarrow> str list" where
  "unified_diff a b =
     (let groups = get_grouped_opcodes a b 3
      in if groups = [] then []
         else (str ''--- '' @ [10]) # (str ''+++ '' @ [10]) # concat (map (hunk_lines a b) groups))"

section \<open>The program\<close>

text \<open>\<open>find_and_extract_diff_links(followers, followings)\<close>, with the names of its parameters.\<close>

definition instagram :: str where
  "instagram = str ''https://www.instagram.com/''"

definition find_and_extract_diff_links :: "str \<Rightarrow> str \<Rightarrow> str list" where
  "find_and_extract_diff_links followers followings =
     (let diff = unified_diff (splitlines followings) (splitlines followers);
          diff_content = concat diff;
          extracted_links = extract_links diff_content
      in filter (\<lambda>link. str_in instagram link \<and> link \<notin> set (extract_links followings))
           extracted_links)"

subsection \<open>\<open>main\<close>\<close>

text \<open>
  What \<open>main\<close> does to the world is a trace of events: a file read to its end, a line
  printed, a browser tab opened, a pause.  An exception that \<open>main\<close> does not catch ends
  the run; it is returned next to the trace of what happened before it.
\<close>

datatype event = Read_file str | Print str | Open_new_tab str | Sleep int

datatype error = FileNotFoundError str | ValueError | OverflowError | OSError

record args =
  followers :: "str option"
  followings :: "str option"
  num_tabs :: int
  duration :: int

text \<open>\<open>not x\<close> for a path that is \<open>None\<close> or a string: \<open>None\<close> and the empty string are false.\<close>

fun falsy :: "str option \<Rightarrow> bool" where
  "falsy None = True"
| "falsy (Some s) = (s = [])"

text \<open>
  \<open>range(start, stop, step)\<close> for a positive step.  (Without the test for the step the
  recursion would not end; \<open>main\<close> below calls it with a positive step only.)
\<close>

function range_step :: "nat \<Rightarrow> nat \<Rightarrow> nat \<Rightarrow> nat list" where
  "range_step start stop step =
     (if 0 < step \<and> start < stop then start # range_step (start + step) stop step else [])"
  by pat_completeness auto
termination
  by (relation "measure (\<lambda>(start, stop, step). stop - start)") auto

declare range_step.simps [simp del]

text \<open>
  The inner loop of a chunk, lines 78 to 81: \<open>for i in range(index, index + num_tabs)\<close>,
  and for each \<open>i\<close> below \<open>len(new_links)\<close> the link is printed and opened.
\<close>

definition open_chunk :: "str list \<Rightarrow> nat \<Rightarrow> nat \<Rightarrow> event list" where
  "open_chunk new_links index n =
     concat (map (\<lambda>i. if i < length new_links
                        then [Print (new_links ! i), Open_new_tab (new_links ! i)] else [])
               [index..<index + n])"

definition chunk_header :: "nat \<Rightarrow> str" where
  "chunk_header index = str ''Opening new links in chunks of '' @ digits index"

text \<open>
  \<open>time.sleep(secs)\<close> for an integer, in CPython on a 64-bit platform.  The duration is
  first converted to nanoseconds in a signed 64-bit number: below \<open>-9223372036\<close> and above
  \<open>9223372036\<close> seconds it does not fit and \<open>OverflowError\<close> is raised, before the sign is
  looked at.  A negative duration that fits raises \<open>ValueError\<close>.  Otherwise the operating
  system is asked to pause until the deadline, and it refuses a deadline that its clock
  cannot hold (\<open>OSError\<close>); whether it does depends on the clock at the time of the call,
  so it is given from outside: \<open>os k secs\<close> says whether the operating system accepts the
  pause number \<open>k\<close> (from 0) of the run, of \<open>secs\<close> seconds.  The result is the exception
  raised, or nothing when the call pauses and returns.
\<close>

type_synonym os_sleep = "nat \<Rightarrow> int \<Rightarrow> bool"

definition time_sleep :: "os_sleep \<Rightarrow> nat \<Rightarrow> int \<Rightarrow> error option" where
  "time_sleep os k secs =
     (if secs < - 9223372036 \<or> 9223372036 < secs then Some OverflowError
      else if secs < 0 then Some ValueError
      else if os k secs then None
      else Some OSError)"

text \<open>
  The outer loop, lines 76 to 82, over the indices of \<open>range(0, len(new_links), num_tabs)\<close>;
  \<open>k\<close> counts the pauses made before.  An exception of \<open>time.sleep\<close> ends the loop after
  the links of the chunk have been opened.
\<close>

fun open_chunks :: "str list \<Rightarrow> nat \<Rightarrow> int \<Rightarrow> os_sleep \<Rightarrow> nat \<Rightarrow> nat list \<Rightarrow>
    event list \<times> error option" where
  "open_chunks new_links n d os k [] = ([], None)"
| "open_chunks new_links n d os k (index # indices) =
     (let evs = Print (chunk_header index) # open_chunk new_links index n
      in case time_sleep os k d of
           Some e \<Rightarrow> (evs, Some e)
         | None \<Rightarrow>
             (case open_chunks new_links n d os (Suc k) indices of
                (evs', r) \<Rightarrow> (evs @ [Sleep d] @ evs', r)))"

text \<open>
  The batch opener: the \<open>for\<close> statement of line 76 with its body.  \<open>range\<close> raises
  \<open>ValueError\<close> for the step 0 and is empty for a negative step (its start 0 is not above
  its stop).
\<close>

definition batch_opener ::
    "str list \<Rightarrow> int \<Rightarrow> int \<Rightarrow> os_sleep \<Rightarrow> event list \<times> error option" where
  "batch_opener new_links n d os =
     (if n = 0 then ([], Some ValueError)
      else if n < 0 then ([], None)
      else open_chunks new_links (nat n) d os 0 (range_step 0 (length new_links) (nat n)))"

text \<open>
  Line 72: \<open>main\<close> passes the content of the followings file as the parameter
  \<open>followers\<close> and the content of the followers file as the parameter \<open>followings\<close>.
  \<open>main_new_links followers_text followings_text\<close> is the list \<open>new_links\<close> of \<open>main\<close>
  for the content \<open>followers_text\<close> of the followers file and the content
  \<open>followings_text\<close> of the followings file (the variables \<open>followers\<close> and
  \<open>followings\<close> of \<open>main\<close>).
\<close>

definition main_new_links :: "str \<Rightarrow> str \<Rightarrow> str list" where
  "main_new_links followers_text followings_text =
     find_and_extract_diff_links followings_text followers_text"

definition count_line :: "nat \<Rightarrow> str" where
  "count_line n = str ''Number of non-followers found: '' @ digits n"

definition missing_paths_message :: str where
  "missing_paths_message = str ''Please provide both followers and followings HTML files.''"

definition no_new_links_message :: str where
  "no_new_links_message =
     str ''No new Instagram links were found in Followers compared to Followings.''"

text \<open>
  \<open>main(args)\<close>.  The file system \<open>fs\<close> gives the text that \<open>f.read()\<close> returns for the
  path of a file, and nothing for a path at which nothing exists.  (A path that exists and
  cannot be read as a text, a directory for one, has no place in \<open>fs\<close>.)  \<open>os\<close> is the
  operating system's answer to the pauses, as in \<open>time_sleep\<close>.
\<close>

definition main :: "args \<Rightarrow> (str \<rightharpoonup> str) \<Rightarrow> os_sleep \<Rightarrow> event list \<times> error option" where
  "main a fs os =
     (if falsy (followers a) \<or> falsy (followings a)
      then ([Print missing_paths_message], None)
      else
        (case (followers a, followings a) of
           (Some followers_file, Some followings_file) \<Rightarrow>
             (case fs followers_file of
                None \<Rightarrow> ([], Some (FileNotFoundError followers_file))
              | Some followers_text \<Rightarrow>
                  (case fs followings_file of
                     None \<Rightarrow> ([Read_file followers_file], Some (FileNotFoundError followings_file))
                   | Some followings_text \<Rightarrow>
                       (let new_links = main_new_links followers_text followings_text;
                            evs = [Read_file followers_file, Read_file followings_file,
                                   Print (count_line (length new_links))]
                        in if new_links \<noteq> []
                           then (case batch_opener new_links (num_tabs a) (duration a) os of
                                   (evs', r) \<Rightarrow> (evs @ evs', r))
                           else (evs @ [Print no_new_links_message], None))))
         | _ \<Rightarrow> ([], None)))"

section \<open>Comparing a sequence with itself\<close>

text \<open>
  \<open>diag_run a i j\<close> is what the table \<open>j2len\<close> of \<open>find_longest_match\<close> holds for the
  column \<open>j\<close> after the row \<open>i\<close>, when a sequence is compared with itself: the length of
  the run of equal elements with an entry in \<open>b2j\<close> that ends at \<open>(i, j)\<close>.  The run on the
  diagonal is never shorter than a run beside it, so the best match stays on the diagonal.
\<close>

fun diag_run :: "'a list \<Rightarrow> nat \<Rightarrow> nat \<Rightarrow> nat" where
  "diag_run a 0 j = (if a ! 0 = a ! j \<and> b2j a (a ! 0) \<noteq> [] then 1 else 0)"
| "diag_run a (Suc i) 0 = (if a ! Suc i = a ! 0 \<and> b2j a (a ! Suc i) \<noteq> [] then 1 else 0)"
| "diag_run a (Suc i) (Suc j) =
     (if a ! Suc i = a ! Suc j \<and> b2j a (a ! Suc i) \<noteq> [] then diag_run a i j + 1 else 0)"

definition get0 :: "(nat \<rightharpoonup> nat) \<Rightarrow> nat \<Rightarrow> nat" where
  "get0 m j = (case m j of None \<Rightarrow> 0 | Some v \<Rightarrow> v)"

lemma b2j_cases: "b2j b x = [] \<or> b2j b x = filter (\<lambda>j. b ! j = x) [0..<length b]"
  by (simp add: b2j_def Let_def)

lemma b2j_set: "j \<in> set (b2j b x) \<Longrightarrow> j < length b \<and> b ! j = x"
  using b2j_cases[of b x] by auto

lemma b2j_sorted: "sorted_wrt (<) (b2j b x)"
  using b2j_cases[of b x] by (auto intro!: sorted_wrt_filter)

lemma b2j_mem: "j < length b \<Longrightarrow> b2j b (b ! j) \<noteq> [] \<Longrightarrow> j \<in> set (b2j b (b ! j))"
  using b2j_cases[of b "b ! j"] by auto

lemma diag_run_pos: "b2j a (a ! j) \<noteq> [] \<Longrightarrow> 1 \<le> diag_run a j j"
  by (cases j) auto

lemma diag_run_le:
  "diag_run a i j \<le> diag_run a i i \<and> diag_run a i j \<le> diag_run a j j"
proof (induction a i j rule: diag_run.induct)
  case (1 a j)
  then show ?case using diag_run_pos[of a j] by auto
next
  case (2 a i)
  then show ?case by auto
next
  case (3 a i j)
  then show ?case by auto
qed

lemma diag_run_zero:
  "j < length a \<Longrightarrow> j \<notin> set (b2j a (a ! i)) \<Longrightarrow> diag_run a i j = 0"
proof -
  assume j: "j < length a" and n: "j \<notin> set (b2j a (a ! i))"
  have "a ! i \<noteq> a ! j \<or> b2j a (a ! i) = []"
    using b2j_mem[OF j] n by (cases "a ! i = a ! j") auto
  then show ?thesis by (cases i; cases j) auto
qed

lemma diag_run_kval:
  assumes "j \<in> set (b2j a (a ! i))"
    and "\<forall>j' < length a. get0 j2len j' = (if i = 0 then 0 else diag_run a (i - 1) j')"
  shows "(if j = 0 then 0 else case j2len (j - 1) of None \<Rightarrow> 0 | Some v \<Rightarrow> v) + 1 = diag_run a i j"
proof -
  from b2j_set[OF assms(1)] have j: "j < length a" "a ! j = a ! i" by auto
  from assms(1) have np: "b2j a (a ! i) \<noteq> []" by auto
  show ?thesis
  proof (cases j)
    case 0
    with j np show ?thesis by (cases i) auto
  next
    case (Suc j')
    with j have "j' < length a" by simp
    with assms(2) have "get0 j2len j' = (if i = 0 then 0 else diag_run a (i - 1) j')" by blast
    with Suc j np show ?thesis by (cases i) (auto simp: get0_def)
  qed
qed

lemma flm_row_diag:
  assumes "flm_row i 0 bhi j2len js (nj, bi, bj, bs) = (nj', bi', bj', bs')"
    and "\<forall>j\<in>set js. j < bhi"
    and "\<forall>j\<in>set js.
          (if j = 0 then 0 else case j2len (j - 1) of None \<Rightarrow> 0 | Some v \<Rightarrow> v) + 1 = diag_run a i j"
    and "sorted_wrt (<) js" and "bi = bj"
    and "\<forall>j\<in>set js. j < i \<longrightarrow> diag_run a j j \<le> bs"
    and "i \<in> set js \<or> diag_run a i i \<le> bs"
  shows "nj' = (\<lambda>j. if j \<in> set js then Some (diag_run a i j) else nj j)
         \<and> bi' = bj' \<and> bs \<le> bs' \<and> diag_run a i i \<le> bs'"
  using assms
proof (induction js arbitrary: nj bi bj bs)
  case Nil
  then show ?case by auto
next
  case (Cons j js)
  let ?k = "diag_run a i j"
  have kv: "(if j = 0 then 0 else case j2len (j - 1) of None \<Rightarrow> 0 | Some v \<Rightarrow> v) + 1 = ?k"
    using Cons.prems(3) by simp
  have jb: "\<not> j \<ge> bhi" using Cons.prems(2) by auto
  have srt: "sorted_wrt (<) js" "\<forall>j'\<in>set js. j < j'" using Cons.prems(4) by auto
  have rest: "\<forall>j\<in>set js. j < bhi"
    "\<forall>j\<in>set js. (if j = 0 then 0 else case j2len (j - 1) of None \<Rightarrow> 0 | Some v \<Rightarrow> v) + 1
        = diag_run a i j"
    using Cons.prems(2,3) by auto
  show ?case
  proof (cases "?k > bs")
    case True
    have ji: "j = i"
    proof (rule ccontr)
      assume "j \<noteq> i"
      then consider "j < i" | "i < j" by linarith
      then show False
      proof cases
        case 1
        with Cons.prems(6) have "diag_run a j j \<le> bs" by simp
        with diag_run_le[of a i j] True show False by simp
      next
        case 2
        with srt(2) have "i \<notin> set (j # js)" by auto
        with Cons.prems(7) have "diag_run a i i \<le> bs" by simp
        with diag_run_le[of a i j] True show False by simp
      qed
    qed
    have "flm_row i 0 bhi j2len (j # js) (nj, bi, bj, bs)
        = flm_row i 0 bhi j2len js (nj(j \<mapsto> ?k), i + 1 - ?k, j + 1 - ?k, ?k)"
      unfolding flm_row.simps Let_def kv using True jb by simp
    with Cons.prems(1)
    have step: "flm_row i 0 bhi j2len js (nj(j \<mapsto> ?k), i + 1 - ?k, j + 1 - ?k, ?k) = (nj', bi', bj', bs')"
      by simp
    have "nj' = (\<lambda>j'. if j' \<in> set js then Some (diag_run a i j') else (nj(j \<mapsto> ?k)) j')
         \<and> bi' = bj' \<and> ?k \<le> bs' \<and> diag_run a i i \<le> bs'"
    proof (rule Cons.IH[OF step rest srt(1)])
      show "i + 1 - ?k = j + 1 - ?k" using ji by simp
      show "\<forall>j\<in>set js. j < i \<longrightarrow> diag_run a j j \<le> ?k"
        using Cons.prems(6) True by auto
      show "i \<in> set js \<or> diag_run a i i \<le> ?k" using ji by simp
    qed
    with True show ?thesis by (auto simp: fun_eq_iff)
  next
    case False
    have "flm_row i 0 bhi j2len (j # js) (nj, bi, bj, bs)
        = flm_row i 0 bhi j2len js (nj(j \<mapsto> ?k), bi, bj, bs)"
      unfolding flm_row.simps Let_def kv using False jb by simp
    with Cons.prems(1)
    have step: "flm_row i 0 bhi j2len js (nj(j \<mapsto> ?k), bi, bj, bs) = (nj', bi', bj', bs')"
      by simp
    have "nj' = (\<lambda>j'. if j' \<in> set js then Some (diag_run a i j') else (nj(j \<mapsto> ?k)) j')
         \<and> bi' = bj' \<and> bs \<le> bs' \<and> diag_run a i i \<le> bs'"
    proof (rule Cons.IH[OF step rest srt(1) Cons.prems(5)])
      show "\<forall>j\<in>set js. j < i \<longrightarrow> diag_run a j j \<le> bs"
        using Cons.prems(6) by auto
      show "i \<in> set js \<or> diag_run a i i \<le> bs"
        using Cons.prems(7) False by auto
    qed
    then show ?thesis by (auto simp: fun_eq_iff)
  qed
qed

lemma flm_rows_diag:
  assumes "flm_rows a (b2j a) 0 (length a) [i0..<length a] j2len (bi, bj, bs) = (bi', bj', bs')"
    and "\<forall>j' < length a. get0 j2len j' = (if i0 = 0 then 0 else diag_run a (i0 - 1) j')"
    and "bi = bj" and "\<forall>r < i0. diag_run a r r \<le> bs"
  shows "bi' = bj'"
  using assms
proof (induction "length a - i0" arbitrary: i0 j2len bi bj bs)
  case 0
  then show ?case by simp
next
  case (Suc n)
  then have lt: "i0 < length a" by simp
  obtain nj bi1 bj1 bs1 where row:
    "flm_row i0 0 (length a) j2len (b2j a (a ! i0)) (Map.empty, bi, bj, bs) = (nj, bi1, bj1, bs1)"
    by (metis prod_cases4)
  have r: "nj = (\<lambda>j. if j \<in> set (b2j a (a ! i0)) then Some (diag_run a i0 j) else Map.empty j)
         \<and> bi1 = bj1 \<and> bs \<le> bs1 \<and> diag_run a i0 i0 \<le> bs1"
  proof (rule flm_row_diag[OF row _ _ b2j_sorted Suc.prems(3)])
    show "\<forall>j\<in>set (b2j a (a ! i0)). j < length a" using b2j_set by fast
    show "\<forall>j\<in>set (b2j a (a ! i0)).
       (if j = 0 then 0 else case j2len (j - 1) of None \<Rightarrow> 0 | Some v \<Rightarrow> v) + 1 = diag_run a i0 j"
      using diag_run_kval[OF _ Suc.prems(2)] by blast
    show "\<forall>j\<in>set (b2j a (a ! i0)). j < i0 \<longrightarrow> diag_run a j j \<le> bs"
      using Suc.prems(4) by blast
    show "i0 \<in> set (b2j a (a ! i0)) \<or> diag_run a i0 i0 \<le> bs"
    proof (cases "b2j a (a ! i0) = []")
      case True
      then have "diag_run a i0 i0 = 0" by (cases i0) auto
      then show ?thesis by simp
    next
      case False
      with b2j_mem[OF lt] show ?thesis by simp
    qed
  qed
  from Suc.prems(1) lt row
  have rest: "flm_rows a (b2j a) 0 (length a) [Suc i0..<length a] nj (bi1, bj1, bs1) = (bi', bj', bs')"
    by (simp add: upt_rec[of i0])
  show ?case
  proof (rule Suc.hyps(1)[OF _ rest])
    show "n = length a - Suc i0" using Suc.hyps(2) by simp
    show "\<forall>j'<length a. get0 nj j' = (if Suc i0 = 0 then 0 else diag_run a (Suc i0 - 1) j')"
      using r diag_run_zero[of _ a i0] by (auto simp: get0_def)
    show "bi1 = bj1" using r by simp
    show "\<forall>r<Suc i0. diag_run a r r \<le> bs1"
      using r Suc.prems(4) by (auto simp: less_Suc_eq intro: order_trans)
  qed
qed

lemma extend_left_same:
  "extend_left a a 0 0 False (bi, bi, bs) = (0, 0, bs + bi)"
proof (induction bi arbitrary: bs)
  case 0
  then show ?case by (simp add: extend_left.simps)
next
  case (Suc bi)
  have "extend_left a a 0 0 False (Suc bi, Suc bi, bs) = extend_left a a 0 0 False (bi, bi, bs + 1)"
    by (subst extend_left.simps) (simp add: isbjunk_def)
  with Suc[of "bs + 1"] show ?case by simp
qed

lemma extend_right_same:
  "bs \<le> n \<Longrightarrow> extend_right a a n n False (0, 0, bs) = (0, 0, n)"
proof (induction "n - bs" arbitrary: bs)
  case 0
  then show ?case by (simp add: extend_right.simps)
next
  case (Suc d)
  then have "extend_right a a n n False (0, 0, bs) = extend_right a a n n False (0, 0, bs + 1)"
    by (subst extend_right.simps) (simp add: isbjunk_def)
  with Suc(1)[of "bs + 1"] Suc(2,3) show ?case by simp
qed

lemma find_longest_match_same:
  "find_longest_match a a (b2j a) 0 (length a) 0 (length a) = (0, 0, length a)"
proof -
  obtain i0 j0 k0 where r0:
    "flm_rows a (b2j a) 0 (length a) [0..<length a] Map.empty (0, 0, 0) = (i0, j0, k0)"
    by (metis prod_cases3)
  have d: "i0 = j0"
    by (rule flm_rows_diag[OF r0]) (simp_all add: get0_def)
  have b: "0 \<le> i0 \<and> i0 + k0 \<le> length a"
    by (rule flm_rows_bounds[OF r0, where t = 0 and alo = 0 and ahi = "length a"]) auto
  have "extend_right a a (length a) (length a) True (0, 0, length a) = (0, 0, length a)"
    by (simp add: extend_right.simps)
  moreover have "extend_left a a 0 0 True (0, 0, length a) = (0, 0, length a)"
    by (simp add: extend_left.simps)
  ultimately show ?thesis
    using b by (simp add: find_longest_match_def r0 d extend_left_same extend_right_same)
qed

lemma mb_loop_same:
  "mb_loop a a (b2j a) [(0, length a, 0, length a)] [] = (if a = [] then [] else [(0, 0, length a)])"
  by (subst mb_loop.simps, simp add: find_longest_match_same, subst mb_loop.simps, simp)
    (subst mb_loop.simps, simp)

lemma get_matching_blocks_same:
  "get_matching_blocks a a =
     (if a = [] then [(0, 0, 0)] else [(0, 0, length a), (length a, length a, 0)])"
  by (simp add: get_matching_blocks_def mb_loop_same Let_def)

lemma get_opcodes_same:
  "get_opcodes a a = (if a = [] then [] else [(Equal, 0, length a, 0, length a)])"
  by (simp add: get_opcodes_def get_matching_blocks_same)

lemma get_grouped_opcodes_same: "get_grouped_opcodes a a n = []"
  by (simp add: get_grouped_opcodes_def get_opcodes_same fix_leading_def fix_trailing_def)

lemma unified_diff_same: "unified_diff a a = []"
  by (simp add: unified_diff_def get_grouped_opcodes_same)

section \<open>Identical documents\<close>

text \<open>
  C4.  For every document \<open>d\<close>, running the pipeline with the followers content and the
  followings content both equal to \<open>d\<close> gives an empty result list: the diff of a text
  with itself has no line, so no link is extracted from it.
\<close>

theorem identical_documents_empty: "main_new_links d d = []"
  by (simp add: main_new_links_def find_and_extract_diff_links_def unified_diff_same
      extract_links_def)

section \<open>The batch opener\<close>

text \<open>The links opened and the pauses made in a trace, in the order of the trace.\<close>

fun opened :: "event list \<Rightarrow> str list" where
  "opened [] = []"
| "opened (Open_new_tab l # evs) = l # opened evs"
| "opened (e # evs) = opened evs"

fun sleeps :: "event list \<Rightarrow> int list" where
  "sleeps [] = []"
| "sleeps (Sleep d # evs) = d # sleeps evs"
| "sleeps (e # evs) = sleeps evs"










text \<open>An operating system that accepts every pause.\<close>

definition accepting_os :: os_sleep where
  "accepting_os k secs = True"

















section \<open>Example documents\<close>

text \<open>
  Example documents with one \<open>href\<close> attribute on each line, and a call of \<open>main\<close> on files
  that hold them.
\<close>

definition href_attr :: "str \<Rightarrow> str" where
  "href_attr url = str ''href='' @ [dquote] @ url @ [dquote]"
definition alice :: str where "alice = str ''https://www.instagram.com/alice/''"
definition bob :: str where "bob = str ''https://www.instagram.com/bob/''"
definition doc_alice :: str where "doc_alice = href_attr alice @ [10]"
definition doc_bob :: str where "doc_bob = href_attr bob @ [10]"
definition doc_alice_bob :: str where "doc_alice_bob = href_attr alice @ [10] @ href_attr bob @ [10]"

lemmas doc_defs = doc_alice_def doc_bob_def doc_alice_bob_def href_attr_def alice_def bob_def
  str_def dquote_def

lemmas links_eval = extract_links_def match_here_def href_http_def instagram_def

lemmas diff_eval = unified_diff_def get_grouped_opcodes_def get_opcodes_def
  get_matching_blocks_def mb_loop.simps find_longest_match_def extend_left.simps
  extend_right.simps b2j_def isbjunk_def fix_leading_def fix_trailing_def hunk_lines_def
  format_range_unified_def slice_def digits.simps splitlines_def is_linebreak_def

lemma extract_doc_alice: "extract_links doc_alice = [alice]"
  by (simp add: links_eval doc_defs)

lemma extract_doc_bob: "extract_links doc_bob = [bob]"
  by (simp add: links_eval doc_defs)

lemma extract_doc_alice_bob: "extract_links doc_alice_bob = [alice, bob]"
  by (simp add: links_eval doc_defs)

lemma instagram_alice: "str_in instagram alice"
  by (simp add: instagram_def doc_defs)

lemma instagram_bob: "str_in instagram bob"
  by (simp add: instagram_def doc_defs)

lemma diff_bob_only:
  "concat (unified_diff (splitlines []) (splitlines doc_bob))
     = str ''--- '' @ [10] @ str ''+++ '' @ [10] @ str ''@@ -0,0 +1 @@'' @ [10] @ str ''+'' @ doc_bob"
  by (simp add: diff_eval doc_defs)

lemma new_links_bob_only: "main_new_links [] doc_bob = [bob]"
  unfolding main_new_links_def find_and_extract_diff_links_def Let_def diff_bob_only
  by (simp add: links_eval doc_defs)

definition doc_alice_indented :: str where
  "doc_alice_indented = str ''  '' @ href_attr alice @ [10]"

definition example_args :: args where
  "example_args = \<lparr>followers = Some (str ''followers.html''),
                    followings = Some (str ''followings.html''), num_tabs = 5, duration = 30\<rparr>"

definition example_fs :: "str \<Rightarrow> str \<Rightarrow> (str \<rightharpoonup> str)" where
  "example_fs followers_text followings_text =
     [str ''followers.html'' \<mapsto> followers_text, str ''followings.html'' \<mapsto> followings_text]"

lemma diff_alice_bob_to_alice:
  "concat (unified_diff (splitlines doc_alice_bob) (splitlines doc_alice))
     = str ''--- '' @ [10] @ str ''+++ '' @ [10] @ str ''@@ -1,2 +1 @@'' @ [10]
       @ str '' '' @ doc_alice @ str ''-'' @ doc_bob"
  by (simp add: diff_eval doc_defs)

lemma diff_alice_to_alice_bob:
  "concat (unified_diff (splitlines doc_alice) (splitlines doc_alice_bob))
     = str ''--- '' @ [10] @ str ''+++ '' @ [10] @ str ''@@ -1 +1,2 @@'' @ [10]
       @ str '' '' @ doc_alice @ str ''+'' @ doc_bob"
  by (simp add: diff_eval doc_defs)

lemma diff_bob_to_nothing:
  "concat (unified_diff (splitlines doc_bob) (splitlines []))
     = str ''--- '' @ [10] @ str ''+++ '' @ [10] @ str ''@@ -1 +0,0 @@'' @ [10]
       @ str ''-'' @ doc_bob"
  by (simp add: diff_eval doc_defs)

lemma diff_alice_to_indented:
  "concat (unified_diff (splitlines doc_alice) (splitlines doc_alice_indented))
     = str ''--- '' @ [10] @ str ''+++ '' @ [10] @ str ''@@ -1 +1 @@'' @ [10]
       @ str ''-'' @ doc_alice @ str ''+'' @ doc_alice_indented"
  by (simp add: diff_eval doc_defs doc_alice_indented_def)

lemma new_links_alice_bob_alice: "main_new_links doc_alice_bob doc_alice = []"
  unfolding main_new_links_def find_and_extract_diff_links_def Let_def diff_alice_bob_to_alice
  by (simp add: links_eval doc_defs)

lemma new_links_alice_alice_bob: "main_new_links doc_alice doc_alice_bob = [bob]"
  unfolding main_new_links_def find_and_extract_diff_links_def Let_def diff_alice_to_alice_bob
  by (simp add: links_eval doc_defs)

lemma new_links_bob_nothing: "main_new_links doc_bob [] = []"
  unfolding main_new_links_def find_and_extract_diff_links_def Let_def diff_bob_to_nothing
  by (simp add: links_eval doc_defs)

lemma links_of_diff_alice_to_indented:
  "extract_links (concat (unified_diff (splitlines doc_alice) (splitlines doc_alice_indented)))
     = [alice, alice]"
  unfolding diff_alice_to_indented by (simp add: links_eval doc_defs doc_alice_indented_def)

lemma example_paths: "str ''followers.html'' \<noteq> str ''followings.html''"
  by (simp add: str_def)

lemma main_alice_bob_alice:
  "main example_args (example_fs doc_alice_bob doc_alice) os =
     ([Read_file (str ''followers.html''), Read_file (str ''followings.html''),
       Print (str ''Number of non-followers found: 0''), Print no_new_links_message], None)"
  using example_paths
  by (simp add: main_def example_args_def example_fs_def new_links_alice_bob_alice count_line_def
      digits.simps str_def)

lemma main_alice_alice_bob:
  "main example_args (example_fs doc_alice doc_alice_bob) os =
     (if os 0 30
      then ([Read_file (str ''followers.html''), Read_file (str ''followings.html''),
             Print (str ''Number of non-followers found: 1''),
             Print (str ''Opening new links in chunks of 0''), Print bob, Open_new_tab bob,
             Sleep 30], None)
      else ([Read_file (str ''followers.html''), Read_file (str ''followings.html''),
             Print (str ''Number of non-followers found: 1''),
             Print (str ''Opening new links in chunks of 0''), Print bob, Open_new_tab bob],
            Some OSError))"
  using example_paths
  by (simp add: main_def example_args_def example_fs_def new_links_alice_alice_bob count_line_def
      digits.simps batch_opener_def range_step.simps open_chunk_def chunk_header_def
      time_sleep_def upt_conv_Cons) (simp add: str_def)

section \<open>The result list\<close>

text \<open>
  C1 as stated fails: a link of the followings document is in the result list when the
  followers document does not have it.  Here the followers document is empty and the
  followings document has the one link \<open>bob\<close>.
\<close>

theorem followings_link_in_result_counterexample:
  "bob \<in> set (extract_links doc_bob) \<and> bob \<in> set (main_new_links [] doc_bob)"
  by (simp add: extract_doc_bob new_links_bob_only)

text \<open>
  C1, amended.  A link that is among the links of the whole followers document never
  appears in the result list, also when the diff of the two documents has it on a changed
  line (the witness: the followings document has the link on a line that the followers
  document does not have).
\<close>

theorem followers_link_never_in_result:
  "l \<in> set (extract_links followers_text)
   \<Longrightarrow> l \<notin> set (main_new_links followers_text followings_text)"
  by (simp add: main_new_links_def find_and_extract_diff_links_def)

theorem followers_link_never_in_result_witness:
  "alice \<in> set (extract_links doc_alice)
   \<and> alice \<in> set (extract_links
        (concat (unified_diff (splitlines doc_alice) (splitlines doc_alice_indented))))
   \<and> alice \<notin> set (main_new_links doc_alice doc_alice_indented)"
  using followers_link_never_in_result[of alice doc_alice doc_alice_indented]
  by (simp add: extract_doc_alice links_of_diff_alice_to_indented)

text \<open>
  C9.  Every link of the list that \<open>main\<close> computes contains
  \<open>https://www.instagram.com/\<close> and is not among the links extracted from the whole
  followers document.
\<close>

theorem result_links_instagram_not_followers:
  "l \<in> set (main_new_links followers_text followings_text)
   \<Longrightarrow> str_in instagram l \<and> l \<notin> set (extract_links followers_text)"
  by (simp add: main_new_links_def find_and_extract_diff_links_def)

theorem result_links_instagram_not_followers_witness:
  "bob \<in> set (main_new_links [] doc_bob)
   \<and> str_in instagram bob \<and> bob \<notin> set (extract_links [])"
  using result_links_instagram_not_followers[of bob "[]" doc_bob]
  by (simp add: new_links_bob_only)

section \<open>\<open>main\<close> without a path, and with an empty result\<close>

text \<open>
  C8.  When the followers path or the followings path is \<open>None\<close> or empty, \<open>main\<close> prints
  one message and returns normally: the trace is that one line, so no file is read and no
  tab is opened.
\<close>

theorem missing_path_message_and_return:
  "falsy (followers a) \<or> falsy (followings a)
   \<Longrightarrow> main a fs os = ([Print missing_paths_message], None)"
  by (simp add: main_def)

theorem missing_path_message_and_return_witness:
  "falsy (followings (example_args\<lparr>followings := None\<rparr>))
   \<and> main (example_args\<lparr>followings := None\<rparr>) (example_fs doc_alice doc_bob) accepting_os
       = ([Print missing_paths_message], None)
   \<and> falsy (followers (example_args\<lparr>followers := Some []\<rparr>))
   \<and> main (example_args\<lparr>followers := Some []\<rparr>) (example_fs doc_alice doc_bob) accepting_os
       = ([Print missing_paths_message], None)"
  using missing_path_message_and_return[of "example_args\<lparr>followings := None\<rparr>"
      "example_fs doc_alice doc_bob" accepting_os]
    missing_path_message_and_return[of "example_args\<lparr>followers := Some []\<rparr>"
      "example_fs doc_alice doc_bob" accepting_os]
  by (simp add: example_args_def str_def)

text \<open>
  C10.  When both files are read and the computed list is empty, \<open>main\<close> prints the count
  line (with the count 0) and then the message that no new Instagram links were found, and
  returns; the trace has no opened tab and no pause.
\<close>

theorem empty_result_prints_and_returns:
  assumes "followers a = Some followers_file" and "followers_file \<noteq> []"
    and "followings a = Some followings_file" and "followings_file \<noteq> []"
    and "fs followers_file = Some followers_text"
    and "fs followings_file = Some followings_text"
    and "main_new_links followers_text followings_text = []"
  shows "main a fs os =
           ([Read_file followers_file, Read_file followings_file, Print (count_line 0),
             Print no_new_links_message], None)
       \<and> opened (fst (main a fs os)) = [] \<and> sleeps (fst (main a fs os)) = []
       \<and> count_line 0 = str ''Number of non-followers found: 0''"
  using assms by (simp add: main_def count_line_def digits.simps) (simp add: str_def)

theorem empty_result_prints_and_returns_witness:
  "followers example_args = Some (str ''followers.html'') \<and> str ''followers.html'' \<noteq> []
   \<and> followings example_args = Some (str ''followings.html'') \<and> str ''followings.html'' \<noteq> []
   \<and> example_fs doc_alice_bob doc_alice (str ''followers.html'') = Some doc_alice_bob
   \<and> example_fs doc_alice_bob doc_alice (str ''followings.html'') = Some doc_alice
   \<and> main_new_links doc_alice_bob doc_alice = []
   \<and> main example_args (example_fs doc_alice_bob doc_alice) accepting_os =
       ([Read_file (str ''followers.html''), Read_file (str ''followings.html''),
         Print (count_line 0), Print no_new_links_message], None)"
proof -
  have h: "followers example_args = Some (str ''followers.html'')"
      "str ''followers.html'' \<noteq> []"
      "followings example_args = Some (str ''followings.html'')"
      "str ''followings.html'' \<noteq> []"
      "example_fs doc_alice_bob doc_alice (str ''followers.html'') = Some doc_alice_bob"
      "example_fs doc_alice_bob doc_alice (str ''followings.html'') = Some doc_alice"
    using example_paths by (simp_all add: example_args_def example_fs_def) (simp_all add: str_def)
  from empty_result_prints_and_returns[OF h new_links_alice_bob_alice, of accepting_os] h
    new_links_alice_bob_alice
  show ?thesis by (simp only: simp_thms)
qed

section \<open>The example with two links\<close>

text \<open>
  C2 as stated fails: with the link \<open>alice\<close> in the followings document and the links
  \<open>alice\<close> and \<open>bob\<close> in the followers document the result list is not \<open>[bob]\<close>, and the count
  line with the count 1 is not printed.
\<close>

theorem example_alice_bob_counterexample:
  "extract_links doc_alice = [alice] \<and> extract_links doc_alice_bob = [alice, bob]
   \<and> main_new_links doc_alice_bob doc_alice \<noteq> [bob]
   \<and> Print (count_line 1)
        \<notin> set (fst (main example_args (example_fs doc_alice_bob doc_alice) accepting_os))"
  by (simp add: extract_doc_alice extract_doc_alice_bob new_links_alice_bob_alice
      main_alice_bob_alice count_line_def digits.simps no_new_links_message_def str_def)

text \<open>
  C2, amended.  With the link \<open>alice\<close> in the followings document and the links \<open>alice\<close> and
  \<open>bob\<close> in the followers document the result list is empty and the printed count is 0.
  With the two documents exchanged (the followers document has \<open>alice\<close>, the followings
  document has \<open>alice\<close> and \<open>bob\<close>) the result list is exactly \<open>[bob]\<close>, the printed count is
  1, and \<open>bob\<close> is opened; the pause of 30 seconds follows (or the error of an operating
  system that refuses it).
\<close>

theorem example_alice_bob:
  "main_new_links doc_alice_bob doc_alice = []
   \<and> main example_args (example_fs doc_alice_bob doc_alice) os =
       ([Read_file (str ''followers.html''), Read_file (str ''followings.html''),
         Print (str ''Number of non-followers found: 0''), Print no_new_links_message], None)
   \<and> main_new_links doc_alice doc_alice_bob = [bob]
   \<and> main example_args (example_fs doc_alice doc_alice_bob) os =
       (if os 0 30
        then ([Read_file (str ''followers.html''), Read_file (str ''followings.html''),
               Print (str ''Number of non-followers found: 1''),
               Print (str ''Opening new links in chunks of 0''), Print bob, Open_new_tab bob,
               Sleep 30], None)
        else ([Read_file (str ''followers.html''), Read_file (str ''followings.html''),
               Print (str ''Number of non-followers found: 1''),
               Print (str ''Opening new links in chunks of 0''), Print bob, Open_new_tab bob],
              Some OSError))"
  by (simp only: new_links_alice_bob_alice new_links_alice_alice_bob main_alice_bob_alice
      main_alice_alice_bob simp_thms)

section \<open>Links of a text with marked lines\<close>

text \<open>
  A diff puts a mark (a plus, a minus or a blank) before every line.  \<open>mark m s\<close> is the
  text \<open>s\<close> with the mark \<open>m\<close> after every line boundary that is followed by more text, so
  the marked lines of \<open>s\<close> are \<open>m\<close> followed by \<open>mark m s\<close>.
\<close>

fun mark :: "nat \<Rightarrow> str \<Rightarrow> str" where
  "mark m [] = []"
| "mark m [c] = [c]"
| "mark m (c # d # cs) =
     (if c = 13 \<and> d = 10 then c # d # (if cs = [] then [] else m # mark m cs)
      else if is_linebreak c then c # m # mark m (d # cs)
      else c # mark m (d # cs))"

lemma marked_lines:
  "concat (map ((#) m) (splitlines_from cur s)) = (if cur = [] \<and> s = [] then [] else m # cur @ mark m s)"
  by (induction cur s rule: splitlines_from.induct) auto

text \<open>
  What the pattern matches, said without the scan: \<open>href="\<close>, a URL that is \<open>http://\<close> or
  \<open>https://\<close> and a non-empty run without a double quote, and the closing double quote.
\<close>

definition href_open :: str where
  "href_open = str ''href='' @ [dquote]"

lemma match_here_iff:
  "match_here s = Some (url, rest) \<longleftrightarrow>
     (\<exists>scheme body. (scheme = str ''http://'' \<or> scheme = str ''https://'') \<and> url = scheme @ body
        \<and> body \<noteq> [] \<and> dquote \<notin> set body \<and> s = href_open @ url @ [dquote] @ rest)"
proof
  assume m: "match_here s = Some (url, rest)"
  then have p: "prefix href_http s" by (simp add: match_here_def split: if_splits)
  then obtain r where s: "s = href_http @ r" by (auto simp: prefix_def)
  define sch where "sch = (if prefix (str ''s://'') r then Some (str ''https://'', drop 4 r)
                    else if prefix (str ''://'') r then Some (str ''http://'', drop 3 r)
                    else None)"
  from m p s obtain scheme r0 where sc: "sch = Some (scheme, r0)"
    and b: "takeWhile (\<lambda>c. c \<noteq> dquote) r0 \<noteq> []" "dropWhile (\<lambda>c. c \<noteq> dquote) r0 \<noteq> []"
    and u: "url = scheme @ takeWhile (\<lambda>c. c \<noteq> dquote) r0"
    and rs: "rest = tl (dropWhile (\<lambda>c. c \<noteq> dquote) r0)"
    by (auto simp: match_here_def Let_def sch_def split: if_splits option.splits)
  let ?body = "takeWhile (\<lambda>c. c \<noteq> dquote) r0"
  have hd: "hd (dropWhile (\<lambda>c. c \<noteq> dquote) r0) = dquote"
    using b(2) hd_dropWhile[of "\<lambda>c. c \<noteq> dquote" r0] by auto
  have r0: "r0 = ?body @ [dquote] @ rest"
    using b(2) hd rs takeWhile_dropWhile_id[of "\<lambda>c. c \<noteq> dquote" r0]
    by (metis append_Cons append_Nil list.collapse)
  have nq: "dquote \<notin> set ?body" by (auto dest: set_takeWhileD)
  from sc have "(scheme = str ''https://'' \<and> r = str ''s://'' @ r0)
      \<or> (scheme = str ''http://'' \<and> r = str ''://'' @ r0)"
    by (auto simp: sch_def prefix_def str_def split: if_splits)
  then have "(scheme = str ''http://'' \<or> scheme = str ''https://'')
      \<and> s = href_open @ scheme @ r0"
    using s by (auto simp: href_http_def href_open_def str_def)
  with u b(1) nq r0 show "\<exists>scheme body. (scheme = str ''http://'' \<or> scheme = str ''https://'')
      \<and> url = scheme @ body \<and> body \<noteq> [] \<and> dquote \<notin> set body
      \<and> s = href_open @ url @ [dquote] @ rest"
    by (intro exI[of _ scheme] exI[of _ ?body]) auto
next
  assume "\<exists>scheme body. (scheme = str ''http://'' \<or> scheme = str ''https://'') \<and> url = scheme @ body
        \<and> body \<noteq> [] \<and> dquote \<notin> set body \<and> s = href_open @ url @ [dquote] @ rest"
  then obtain scheme body where sc: "scheme = str ''http://'' \<or> scheme = str ''https://''"
    and u: "url = scheme @ body" and b: "body \<noteq> []" "dquote \<notin> set body"
    and s: "s = href_open @ url @ [dquote] @ rest" by blast
  have tw: "takeWhile (\<lambda>c. c \<noteq> dquote) (body @ dquote # rest) = body"
    using b(2) by (auto simp: takeWhile_tail)
  have dw: "dropWhile (\<lambda>c. c \<noteq> dquote) (body @ dquote # rest) = dquote # rest"
    using b(2) by (auto simp: dropWhile_append3)
  from sc show "match_here s = Some (url, rest)"
  proof
    assume "scheme = str ''http://''"
    then have "s = href_http @ str ''://'' @ body @ dquote # rest"
      using s u by (simp add: href_http_def href_open_def str_def)
    then show ?thesis
      using tw dw b(1) u \<open>scheme = str ''http://''\<close>
      by (simp add: match_here_def href_http_def str_def)
  next
    assume "scheme = str ''https://''"
    then have "s = href_http @ str ''s://'' @ body @ dquote # rest"
      using s u by (simp add: href_http_def href_open_def str_def)
    then show ?thesis
      using tw dw b(1) u \<open>scheme = str ''https://''\<close>
      by (simp add: match_here_def href_http_def str_def)
  qed
qed


lemma match_here_not_h: "c \<noteq> 104 \<Longrightarrow> match_here (c # xs) = None"
  by (simp add: match_here_def href_http_def str_def)

lemma findall_skip: "c \<noteq> 104 \<Longrightarrow> findall_href (c # xs) = findall_href xs"
  by (simp add: match_here_not_h)

lemma findall_skip_prefix: "104 \<notin> set p \<Longrightarrow> findall_href (p @ s) = findall_href s"
  by (induction p) (auto simp: findall_skip simp del: findall_href.simps)

lemma linebreak_not_h: "is_linebreak c \<Longrightarrow> c \<noteq> 104"
  by (auto simp: is_linebreak_def)

lemma mark_Cons_nolb: "\<not> is_linebreak c \<Longrightarrow> mark m (c # s) = c # mark m s"
  by (cases s) (auto simp: is_linebreak_def)

lemma mark_nolb_prefix: "\<forall>c\<in>set p. \<not> is_linebreak c \<Longrightarrow> mark m (p @ s) = p @ mark m s"
  by (induction p) (simp_all add: mark_Cons_nolb)

lemma mark_hd: "mark m (c # s) = c # tl (mark m (c # s))"
  by (cases s) auto

lemma unmark_prefix:
  "mark m s = p @ Y \<Longrightarrow> \<forall>c\<in>set p. \<not> is_linebreak c \<Longrightarrow> \<exists>Y'. s = p @ Y' \<and> Y = mark m Y'"
proof (induction p arbitrary: s)
  case Nil
  then show ?case by simp
next
  case (Cons c p)
  from Cons.prems(1) obtain s' where s: "s = c # s'"
    using mark_hd[of m] by (cases s) (auto, metis list.sel(1))
  with Cons.prems have "mark m s' = p @ Y" by (simp add: mark_Cons_nolb)
  with Cons.IH[of s'] Cons.prems(2) s show ?case by auto
qed

lemma set_mark: "set (mark m s) \<subseteq> insert m (set s)"
  by (induction m s rule: mark.induct) auto

lemma url_chars_nolb:
  "scheme = str ''http://'' \<or> scheme = str ''https://'' \<Longrightarrow>
   \<forall>c\<in>set (href_open @ scheme). \<not> is_linebreak c"
  by (auto simp: href_open_def str_def dquote_def is_linebreak_def)

lemma match_here_mark:
  assumes "match_here s = Some (url, rest)" and "\<forall>c\<in>set url. \<not> is_linebreak c"
  shows "match_here (mark m s) = Some (url, mark m rest)"
proof -
  from assms(1) obtain scheme body where
    sc: "scheme = str ''http://'' \<or> scheme = str ''https://''" and u: "url = scheme @ body"
    and b: "body \<noteq> []" "dquote \<notin> set body" and s: "s = href_open @ url @ [dquote] @ rest"
    unfolding match_here_iff by blast
  have "\<forall>c\<in>set (href_open @ url @ [dquote]). \<not> is_linebreak c"
    using assms(2) by (auto simp: href_open_def str_def dquote_def is_linebreak_def)
  from mark_nolb_prefix[OF this, of m rest] s
  have "mark m s = href_open @ url @ [dquote] @ mark m rest" by simp
  with sc u b show ?thesis unfolding match_here_iff by blast
qed

lemma match_here_unmark:
  assumes "match_here (mark m s) = Some (url, rest)" and "m \<noteq> dquote"
  shows "match_here s \<noteq> None"
proof -
  from assms(1) obtain scheme body where
    sc: "scheme = str ''http://'' \<or> scheme = str ''https://''" and u: "url = scheme @ body"
    and b: "body \<noteq> []" "dquote \<notin> set body"
    and s: "mark m s = href_open @ url @ [dquote] @ rest"
    unfolding match_here_iff by blast
  from s u have "mark m s = (href_open @ scheme) @ (body @ dquote # rest)" by simp
  from unmark_prefix[OF this url_chars_nolb[OF sc]]
  obtain Y where Y: "s = (href_open @ scheme) @ Y" "body @ dquote # rest = mark m Y" by blast
  let ?P = "\<lambda>c. c \<noteq> dquote"
  have "dquote \<in> set (mark m Y)" using Y(2)[symmetric] by simp
  with set_mark[of m Y] assms(2) have q: "dquote \<in> set Y" by auto
  then have dw: "dropWhile ?P Y \<noteq> []" by (auto simp: dropWhile_eq_Nil_conv)
  from q obtain y Y' where yy: "Y = y # Y'" by (cases Y) auto
  have "hd (mark m Y) = hd body" using Y(2)[symmetric] b(1) by simp
  with yy mark_hd[of m y Y'] have "y = hd body" by (metis list.sel(1))
  with b have "y \<noteq> dquote" by (metis list.set_sel(1))
  with yy have tw: "takeWhile ?P Y \<noteq> []" by simp
  have hd: "hd (dropWhile ?P Y) = dquote"
    using dw hd_dropWhile[of ?P Y] by auto
  have "Y = takeWhile ?P Y @ [dquote] @ tl (dropWhile ?P Y)"
    using dw hd takeWhile_dropWhile_id[of ?P Y]
    by (metis append_Cons append_Nil list.collapse)
  with Y(1) have "s = href_open @ (scheme @ takeWhile ?P Y) @ [dquote] @ tl (dropWhile ?P Y)"
    by simp
  moreover have "dquote \<notin> set (takeWhile ?P Y)" by (auto dest: set_takeWhileD)
  ultimately have "match_here s = Some (scheme @ takeWhile ?P Y, tl (dropWhile ?P Y))"
    using sc tw unfolding match_here_iff by blast
  then show ?thesis by simp
qed

lemma findall_mark_tail:
  assumes "m \<noteq> 104" and "match_here (mark m (c # cs)) = None"
  shows "findall_href (mark m (c # cs)) = findall_href (mark m cs)"
proof (cases cs)
  case Nil
  with assms(2) show ?thesis by simp
next
  case (Cons d cs')
  show ?thesis
  proof (cases "c = 13 \<and> d = 10")
    case True
    then show ?thesis using Cons assms(1)
      by (cases cs') (simp_all add: findall_skip is_linebreak_def del: findall_href.simps)
  next
    case crlf: False
    show ?thesis
    proof (cases "is_linebreak c")
      case True
      with crlf Cons assms(1) linebreak_not_h[OF True] show ?thesis
        by (auto simp: findall_skip simp del: findall_href.simps)
    next
      case False
      then have "mark m (c # cs) = c # mark m cs" by (rule mark_Cons_nolb)
      with assms(2) show ?thesis by simp
    qed
  qed
qed

lemma findall_href_unfold:
  "s \<noteq> [] \<Longrightarrow> findall_href s =
     (case match_here s of Some (url, rest) \<Rightarrow> url # findall_href rest
      | None \<Rightarrow> findall_href (tl s))"
  by (cases s) (auto split: option.splits)

lemma findall_mark:
  assumes "m \<noteq> dquote" and "m \<noteq> 104"
  shows "\<forall>l\<in>set (findall_href s). \<forall>c\<in>set l. \<not> is_linebreak c
         \<Longrightarrow> findall_href (mark m s) = findall_href s"
proof (induction s rule: findall_href.induct)
  case 1
  then show ?case by simp
next
  case (2 c cs)
  have ne: "mark m (c # cs) \<noteq> []" using mark_hd[of m c cs] by (metis list.distinct(1))
  show ?case
  proof (cases "match_here (c # cs)")
    case None
    with 2(3) have "\<forall>l\<in>set (findall_href cs). \<forall>c\<in>set l. \<not> is_linebreak c" by simp
    with 2(1)[OF None] have ih: "findall_href (mark m cs) = findall_href cs" .
    have "match_here (mark m (c # cs)) = None"
      using match_here_unmark[OF _ assms(1), of "c # cs"] None
      by (cases "match_here (mark m (c # cs))") auto
    from findall_mark_tail[OF assms(2) this] ih None show ?thesis by simp
  next
    case (Some ur)
    obtain url rest where ur: "ur = (url, rest)" by (cases ur)
    with Some 2(3) have nolb: "\<forall>c\<in>set url. \<not> is_linebreak c"
      and rl: "\<forall>l\<in>set (findall_href rest). \<forall>c\<in>set l. \<not> is_linebreak c" by simp_all
    from 2(2)[OF Some ur[symmetric] rl] have ih: "findall_href (mark m rest) = findall_href rest" .
    from match_here_mark[OF Some[unfolded ur] nolb]
    have "match_here (mark m (c # cs)) = Some (url, mark m rest)" .
    with findall_href_unfold[OF ne] ih Some ur show ?thesis by simp
  qed
qed

section \<open>A diff from or to the empty document\<close>

lemma b2j_Nil: "b2j [] x = []"
  by (simp add: b2j_def)

lemma flm_rows_no_candidates:
  "\<forall>x. bj x = [] \<Longrightarrow> flm_rows a bj blo bhi rows j2len bst = bst"
  by (induction rows arbitrary: j2len) simp_all

lemma find_longest_match_empty_a: "find_longest_match [] b bj 0 0 0 n = (0, 0, 0)"
  by (simp add: find_longest_match_def extend_left.simps extend_right.simps)

lemma find_longest_match_empty_b: "find_longest_match a [] (b2j []) 0 n 0 0 = (0, 0, 0)"
  by (simp add: find_longest_match_def flm_rows_no_candidates b2j_Nil
      extend_left.simps extend_right.simps)

lemma get_grouped_opcodes_insert_all:
  "b \<noteq> [] \<Longrightarrow> get_grouped_opcodes [] b 3 = [[(Insert, 0, 0, 0, length b)]]"
  by (simp add: get_grouped_opcodes_def get_opcodes_def get_matching_blocks_def
      mb_loop.simps find_longest_match_empty_a fix_leading_def fix_trailing_def)

lemma get_grouped_opcodes_delete_all:
  "a \<noteq> [] \<Longrightarrow> get_grouped_opcodes a [] 3 = [[(Delete, 0, length a, 0, 0)]]"
  by (simp add: get_grouped_opcodes_def get_opcodes_def get_matching_blocks_def
      mb_loop.simps find_longest_match_empty_b fix_leading_def fix_trailing_def)

lemma append_single: "(@) [c] = (#) c"
  by (simp add: fun_eq_iff)

text \<open>
  The three lines before the lines of a diff with one hunk: the two file headers and the
  hunk header for \<open>la\<close> lines taken from the first list and \<open>lb\<close> lines from the second,
  both from the start.
\<close>

definition diff_header :: "nat \<Rightarrow> nat \<Rightarrow> str" where
  "diff_header la lb = str ''--- '' @ [10] @ str ''+++ '' @ [10]
     @ str ''@@ -'' @ format_range_unified 0 la @ str '' +'' @ format_range_unified 0 lb
     @ str '' @@'' @ [10]"

lemma unified_diff_insert_all:
  "b \<noteq> [] \<Longrightarrow> concat (unified_diff [] b)
     = diff_header 0 (length b) @ concat (map ((#) 43) b)"
  by (simp add: unified_diff_def get_grouped_opcodes_insert_all hunk_lines_def slice_def
      diff_header_def str_def append_single)

lemma unified_diff_delete_all:
  "a \<noteq> [] \<Longrightarrow> concat (unified_diff a [])
     = diff_header (length a) 0 @ concat (map ((#) 45) a)"
  by (simp add: unified_diff_def get_grouped_opcodes_delete_all hunk_lines_def slice_def
      diff_header_def str_def append_single)

lemma digits_no_h: "104 \<notin> set (digits n)"
proof (induction n rule: digits.induct)
  case (1 n)
  show ?case
  proof (cases "n < 10")
    case True
    then show ?thesis by (subst digits.simps) simp
  next
    case False
    have "n mod 10 < 10" by simp
    then have "48 + n mod 10 \<noteq> 104" by linarith
    with 1[OF False] False show ?thesis by (subst digits.simps) simp
  qed
qed

lemma diff_header_no_h: "104 \<notin> set (diff_header la lb)"
  by (simp add: diff_header_def format_range_unified_def Let_def digits_no_h) (simp add: str_def)

lemma splitlines_Nil_iff: "splitlines s = [] \<longleftrightarrow> s = []"
proof -
  have "splitlines_from cur s = [] \<longleftrightarrow> cur = [] \<and> s = []" for cur
    by (induction cur s rule: splitlines_from.induct) auto
  then show ?thesis by (simp add: splitlines_def)
qed

lemma links_of_marked_lines:
  assumes "m \<noteq> dquote" and "m \<noteq> 104"
    and "\<forall>l\<in>set (extract_links s). \<forall>c\<in>set l. \<not> is_linebreak c"
  shows "extract_links (diff_header la lb @ concat (map ((#) m) (splitlines s))) = extract_links s"
proof -
  have "findall_href (concat (map ((#) m) (splitlines s))) = findall_href s"
  proof (cases "s = []")
    case True
    then show ?thesis by (simp add: splitlines_def)
  next
    case False
    then have "concat (map ((#) m) (splitlines s)) = m # mark m s"
      by (simp add: splitlines_def marked_lines)
    with findall_mark[OF assms(1,2), of s] assms(2,3) show ?thesis
      by (simp add: findall_skip extract_links_def del: findall_href.simps)
  qed
  then show ?thesis
    by (simp add: extract_links_def findall_skip_prefix[OF diff_header_no_h])
qed

lemma links_of_diff_from_nothing:
  assumes "\<forall>l\<in>set (extract_links s). \<forall>c\<in>set l. \<not> is_linebreak c"
  shows "extract_links (concat (unified_diff (splitlines []) (splitlines s))) = extract_links s"
proof (cases "s = []")
  case True
  then show ?thesis by (simp add: unified_diff_same)
next
  case False
  then have "splitlines s \<noteq> []" by (simp add: splitlines_Nil_iff)
  then have "concat (unified_diff (splitlines []) (splitlines s))
      = diff_header 0 (length (splitlines s)) @ concat (map ((#) 43) (splitlines s))"
    by (simp add: splitlines_def[of "[]"] unified_diff_insert_all)
  with links_of_marked_lines[OF _ _ assms, of 43] show ?thesis by (simp add: dquote_def)
qed

lemma links_of_diff_to_nothing:
  assumes "\<forall>l\<in>set (extract_links s). \<forall>c\<in>set l. \<not> is_linebreak c"
  shows "extract_links (concat (unified_diff (splitlines s) (splitlines []))) = extract_links s"
proof (cases "s = []")
  case True
  then show ?thesis by (simp add: unified_diff_same)
next
  case False
  then have "splitlines s \<noteq> []" by (simp add: splitlines_Nil_iff)
  then have "concat (unified_diff (splitlines s) (splitlines []))
      = diff_header (length (splitlines s)) 0 @ concat (map ((#) 45) (splitlines s))"
    by (simp add: splitlines_def[of "[]"] unified_diff_delete_all)
  with links_of_marked_lines[OF _ _ assms, of 45] show ?thesis by (simp add: dquote_def)
qed

text \<open>
  C3 as stated fails: with an empty followings document and a followers document whose
  one link is the Instagram link \<open>bob\<close>, the result list is not \<open>[bob]\<close> (it is empty).
\<close>

theorem one_follower_link_counterexample:
  "extract_links doc_bob = [bob] \<and> str_in instagram bob \<and> main_new_links doc_bob [] \<noteq> [bob]"
  by (simp add: extract_doc_bob instagram_bob new_links_bob_nothing)

text \<open>
  C3, amended.  If the followers document is empty and the followings document contains
  exactly one Instagram link, and no link of that document has a line break in it, then
  the result list contains exactly that one link.  With the documents the other way round
  (the followings document empty) the result list is empty.
\<close>

theorem one_followings_link_is_result:
  assumes "filter (str_in instagram) (extract_links text) = [l]"
    and "\<forall>x\<in>set (extract_links text). \<forall>c\<in>set x. \<not> is_linebreak c"
  shows "main_new_links [] text = [l] \<and> main_new_links text [] = []"
proof -
  have "extract_links [] = []" by (simp add: extract_links_def)
  then have "main_new_links [] text = filter (str_in instagram) (extract_links text)"
    using links_of_diff_from_nothing[OF assms(2)]
    by (simp add: main_new_links_def find_and_extract_diff_links_def)
  moreover have "main_new_links text [] = []"
    using links_of_diff_to_nothing[OF assms(2)]
    by (simp add: main_new_links_def find_and_extract_diff_links_def)
  ultimately show ?thesis using assms(1) by simp
qed

theorem one_followings_link_is_result_witness:
  "filter (str_in instagram) (extract_links doc_bob) = [bob]
   \<and> main_new_links [] doc_bob = [bob] \<and> main_new_links doc_bob [] = []"
proof -
  have h1: "filter (str_in instagram) (extract_links doc_bob) = [bob]"
    by (simp add: extract_doc_bob instagram_bob)
  have h2: "\<forall>x\<in>set (extract_links doc_bob). \<forall>c\<in>set x. \<not> is_linebreak c"
    by (simp add: extract_doc_bob) (simp add: doc_defs is_linebreak_def)
  from one_followings_link_is_result[OF h1 h2] h1 show ?thesis by simp
qed

section \<open>All matches of the pattern and the links extracted\<close>

text \<open>
  Following the words of the specification: every substring of the text that matches the
  pattern, in the order of the positions where the matches start.  \<open>pattern_matches s\<close> has
  for each such match its start, its URL and its end, \<open>all_pattern_matches s\<close> the URLs.
\<close>

definition match_at :: "str \<Rightarrow> nat \<Rightarrow> (nat \<times> str \<times> nat) list" where
  "match_at s p =
     (case match_here (drop p s) of
        Some (url, rest) \<Rightarrow> [(p, url, length s - length rest)]
      | None \<Rightarrow> [])"

definition pattern_matches_from :: "str \<Rightarrow> nat \<Rightarrow> (nat \<times> str \<times> nat) list" where
  "pattern_matches_from s q = concat (map (match_at s) [q..<length s])"

definition pattern_matches :: "str \<Rightarrow> (nat \<times> str \<times> nat) list" where
  "pattern_matches s = pattern_matches_from s 0"

definition all_pattern_matches :: "str \<Rightarrow> str list" where
  "all_pattern_matches s = map (\<lambda>(p, url, e). url) (pattern_matches s)"

text \<open>
  The matches that do not start inside a match kept before: \<open>pos\<close> is the end of the last
  match kept.
\<close>

fun keep_nonoverlapping :: "nat \<Rightarrow> (nat \<times> str \<times> nat) list \<Rightarrow> str list" where
  "keep_nonoverlapping pos [] = []"
| "keep_nonoverlapping pos ((p, url, e) # ms) =
     (if p < pos then keep_nonoverlapping pos ms else url # keep_nonoverlapping e ms)"

text \<open>
  A text with a match that starts inside another one: the closing quote of the first
  \<open>href\<close> attribute is the opening quote of the second.
\<close>

definition overlap_doc :: str where
  "overlap_doc = href_attr (str ''http://xhref='') @ str ''http://y'' @ [dquote]"

lemma match_here_suffix:
  assumes "match_here s = Some (url, rest)"
  shows "rest = drop (length s - length rest) s \<and> length rest < length s"
proof -
  from assms obtain pre where "s = pre @ rest"
    unfolding match_here_iff by (metis append.assoc)
  then show ?thesis using match_here_shorter[OF assms] by simp
qed

lemma keep_start:
  "\<forall>m\<in>set ms. pos \<le> fst m \<and> pos' \<le> fst m
   \<Longrightarrow> keep_nonoverlapping pos ms = keep_nonoverlapping pos' ms"
  by (cases ms) auto

lemma keep_drop_before:
  "\<forall>m\<in>set xs. fst m < pos \<Longrightarrow> keep_nonoverlapping pos (xs @ ys) = keep_nonoverlapping pos ys"
  by (induction xs) auto

lemma match_at_start: "m \<in> set (match_at s p) \<Longrightarrow> fst m = p"
  by (auto simp: match_at_def split: option.splits)

lemma pattern_matches_from_start:
  "m \<in> set (pattern_matches_from s q) \<Longrightarrow> q \<le> fst m \<and> fst m < length s"
  by (auto simp: pattern_matches_from_def dest: match_at_start)

lemma pattern_matches_from_split:
  "q \<le> e \<Longrightarrow> e \<le> length s \<Longrightarrow>
   pattern_matches_from s q = concat (map (match_at s) [q..<e]) @ pattern_matches_from s e"
proof -
  assume "q \<le> e" "e \<le> length s"
  then have "[q..<length s] = [q..<e] @ [e..<length s]"
    by (metis le_Suc_ex upt_add_eq_append)
  then show ?thesis by (simp add: pattern_matches_from_def)
qed

lemma findall_from:
  "q \<le> length s \<Longrightarrow>
   findall_href (drop q s) = keep_nonoverlapping q (pattern_matches_from s q)"
proof (induction "length s - q" arbitrary: q rule: less_induct)
  case less
  show ?case
  proof (cases "q = length s")
    case True
    then show ?thesis by (simp add: pattern_matches_from_def)
  next
    case False
    with less.prems have lt: "q < length s" by simp
    then have dr: "drop q s = s ! q # drop (Suc q) s" by (simp add: Cons_nth_drop_Suc)
    have pm: "pattern_matches_from s q = match_at s q @ pattern_matches_from s (Suc q)"
      using lt by (simp add: pattern_matches_from_def upt_conv_Cons)
    show ?thesis
    proof (cases "match_here (drop q s)")
      case None
      then have "findall_href (drop q s) = findall_href (drop (Suc q) s)"
        by (simp add: dr)
      also have "\<dots> = keep_nonoverlapping (Suc q) (pattern_matches_from s (Suc q))"
        using lt by (intro less.hyps) auto
      also have "\<dots> = keep_nonoverlapping q (pattern_matches_from s (Suc q))"
        by (rule keep_start) (auto dest: pattern_matches_from_start)
      finally show ?thesis using None by (simp add: pm match_at_def)
    next
      case (Some ur)
      obtain url rest where ur: "ur = (url, rest)" by (cases ur)
      define e where "e = length s - length rest"
      from match_here_suffix[OF Some[unfolded ur]] lt
      have rest: "rest = drop e s" and e: "q < e" "e \<le> length s"
        by (auto simp: e_def)
      have "findall_href (drop q s) = url # findall_href (drop e s)"
        using Some ur rest by (simp add: dr)
      also have "findall_href (drop e s) = keep_nonoverlapping e (pattern_matches_from s e)"
        using e lt by (intro less.hyps) auto
      also have "\<dots> = keep_nonoverlapping e (pattern_matches_from s (Suc q))"
        using e pattern_matches_from_split[of "Suc q" e s]
        by (simp add: keep_drop_before match_at_start)
      finally show ?thesis
        using Some ur by (simp add: pm match_at_def e_def)
    qed
  qed
qed

text \<open>
  C5 as stated fails: in \<open>overlap_doc\<close> two substrings match the pattern, with the URLs
  \<open>http://xhref=\<close> and \<open>http://y\<close>, and \<open>extract_links\<close> returns the first URL only.
\<close>

theorem extract_links_overlap_counterexample:
  "all_pattern_matches overlap_doc = [str ''http://xhref='', str ''http://y'']
   \<and> extract_links overlap_doc = [str ''http://xhref='']"
  by (simp add: all_pattern_matches_def pattern_matches_def pattern_matches_from_def match_at_def
      overlap_doc_def links_eval doc_defs upt_conv_Cons)

text \<open>
  C5, amended.  For every input text \<open>extract_links\<close> returns the URLs (the part between
  the quotes) of the substrings matching the pattern, in the order of their appearance in
  the text and with duplicates retained, leaving out every match that starts inside a
  match returned before.
\<close>

theorem extract_links_nonoverlapping_matches:
  "extract_links s = keep_nonoverlapping 0 (pattern_matches s)"
  using findall_from[of 0 s] by (simp add: extract_links_def pattern_matches_def)

end
